theory Spec2Isabelle
  imports Main "HOL-Library.Word" "HOL-Library.Signed_Division"
begin

unbundle bit_operations_syntax

section \<open>Tracing clocks (kernel/trace/trace\_clock.c)\<close>

text \<open>
  The file implements three clock readers for the tracer: \<open>trace_clock_local\<close>,
  \<open>trace_clock\<close> and \<open>trace_clock_global\<close>. The last one exists in two variants, chosen
  by \<open>CONFIG_MIPS_BRCM\<close>: the portable one serialises its callers through
  \<open>trace_clock_lock\<close> and the static \<open>prev_trace_clock_time\<close>; the Broadcom one reads the
  clocksource directly and takes no lock.
\<close>

subsection \<open>Machine types\<close>

type_synonym u64 = "64 word"
type_synonym u32 = "32 word"
type_synonym cpu_id = "32 word"

subsection \<open>What one call reads from outside the file\<close>

text \<open>
  \<open>sched_clock()\<close>, \<open>cpu_clock(cpu)\<close>, \<open>raw_smp_processor_id()\<close> and \<open>in_nmi()\<close> are
  kernel primitives defined elsewhere. One call of a reader sees one answer from each of
  them; these answers are the inputs of the call. \<open>trace_clock_lock\<close> is shared with
  the other processors, so what a poll of the lock word finds is an input as well:
  \<open>lock_busy e k\<close> says that the \<open>k\<close>-th poll of this call finds the lock held.
\<close>

record env =
  sched_clock :: u64
  raw_smp_processor_id :: cpu_id
  cpu_clock :: "cpu_id \<Rightarrow> u64"
  in_nmi :: bool
  lock_busy :: "nat \<Rightarrow> bool"

subsection \<open>State\<close>

text \<open>
  The state a call can change: the interrupt-disable flag of the calling processor, the
  static \<open>prev_trace_clock_time\<close>, and a history of the primitives executed so far, each
  with the value the interrupt-disable flag had when it ran.
\<close>

datatype primitive =
    IRQ_SAVE
  | IRQ_RESTORE
  | SCHED_CLOCK
  | SMP_PROCESSOR_ID
  | CPU_CLOCK cpu_id
  | IN_NMI
  | SPIN_LOCK nat
  | SPIN_UNLOCK

record kstate =
  irqs_disabled :: bool
  prev_trace_clock_time :: u64
  history :: "(primitive \<times> bool) list"

text \<open>\<open>static u64 prev_trace_clock_time;\<close> starts at zero.\<close>

definition boot_state :: kstate where
  "boot_state = \<lparr> irqs_disabled = False, prev_trace_clock_time = 0, history = [] \<rparr>"

definition log_prim :: "primitive \<Rightarrow> kstate \<Rightarrow> kstate" where
  "log_prim p s = s\<lparr> history := history s @ [(p, irqs_disabled s)] \<rparr>"

text \<open>\<open>raw_local_irq_save(flags)\<close>: remember the flag, then mask.\<close>

definition raw_local_irq_save :: "kstate \<Rightarrow> bool \<times> kstate" where
  "raw_local_irq_save s = (irqs_disabled s, (log_prim IRQ_SAVE s)\<lparr> irqs_disabled := True \<rparr>)"

text \<open>\<open>raw_local_irq_restore(flags)\<close>: put the remembered flag back.\<close>

definition raw_local_irq_restore :: "bool \<Rightarrow> kstate \<Rightarrow> kstate" where
  "raw_local_irq_restore flags s = (log_prim IRQ_RESTORE s)\<lparr> irqs_disabled := flags \<rparr>"

subsection \<open>The guard\<close>

text \<open>
  Modelled from the spec: \<open>__raw_spin_lock\<close> and \<open>__raw_spin_unlock\<close> are architecture
  primitives that are not part of this file. The spec describes the acquisition as a
  busy-wait spin (an atomic compare-and-swap loop): the caller polls the lock word until a
  poll finds it free and takes it then. A lock that no poll finds free is never taken, and
  the call never returns: the value \<open>None\<close>.
\<close>

partial_function (option) spin_until_free :: "(nat \<Rightarrow> bool) \<Rightarrow> nat \<Rightarrow> nat option" where
  "spin_until_free busy k = (if busy k then spin_until_free busy (Suc k) else Some k)"

definition raw_spin_lock :: "env \<Rightarrow> kstate \<Rightarrow> kstate option" where
  "raw_spin_lock e s =
     (case spin_until_free (lock_busy e) 0 of
        None \<Rightarrow> None
      | Some k \<Rightarrow> Some (log_prim (SPIN_LOCK k) s))"

definition raw_spin_unlock :: "kstate \<Rightarrow> kstate" where
  "raw_spin_unlock s = log_prim SPIN_UNLOCK s"


subsection \<open>The three readers\<close>

definition trace_clock_local :: "env \<Rightarrow> kstate \<Rightarrow> u64 \<times> kstate" where
  "trace_clock_local e s =
     (let (flags, s1) = raw_local_irq_save s;
          clock = sched_clock e;
          s2 = log_prim SCHED_CLOCK s1;
          s3 = raw_local_irq_restore flags s2
      in (clock, s3))"

definition trace_clock :: "env \<Rightarrow> kstate \<Rightarrow> u64 \<times> kstate" where
  "trace_clock e s =
     (let cpu = raw_smp_processor_id e;
          s1 = log_prim SMP_PROCESSOR_ID s;
          s2 = log_prim (CPU_CLOCK cpu) s1
      in (cpu_clock e cpu, s2))"

text \<open>
  The portable \<open>trace_clock_global\<close>. \<open>(s64)(now - prev_trace_clock_time) < 0\<close> is the
  sign of the wrapped 64-bit difference: \<open>sint (now - prev) < 0\<close>.
\<close>

definition trace_clock_global :: "env \<Rightarrow> kstate \<Rightarrow> (u64 \<times> kstate) option" where
  "trace_clock_global e s =
     (let (flags, s1) = raw_local_irq_save s;
          this_cpu = raw_smp_processor_id e;
          s2 = log_prim SMP_PROCESSOR_ID s1;
          now = cpu_clock e this_cpu;
          s3 = log_prim (CPU_CLOCK this_cpu) s2;
          s4 = log_prim IN_NMI s3
      in if in_nmi e then Some (now, raw_local_irq_restore flags s4)
         else
           (case raw_spin_lock e s4 of
              None \<Rightarrow> None
            | Some s5 \<Rightarrow>
                (let now' = (if sint (now - prev_trace_clock_time s5) < 0
                             then prev_trace_clock_time s5 + 1 else now);
                     s6 = s5\<lparr> prev_trace_clock_time := now' \<rparr>;
                     s7 = raw_spin_unlock s6
                 in Some (now', raw_local_irq_restore flags s7))))"

text \<open>Calls made one after the other, each starting in the state the previous one left.\<close>

fun trace_clock_global_calls :: "env list \<Rightarrow> kstate \<Rightarrow> (u64 list \<times> kstate) option" where
  "trace_clock_global_calls [] s = Some ([], s)"
| "trace_clock_global_calls (e # es) s =
     (case trace_clock_global e s of
        None \<Rightarrow> None
      | Some (v, s1) \<Rightarrow>
          (case trace_clock_global_calls es s1 of
             None \<Rightarrow> None
           | Some (vs, s2) \<Rightarrow> Some (v # vs, s2)))"


subsection \<open>Vocabulary for the properties\<close>

text \<open>The raw per-processor sample of a call: \<open>cpu_clock(this_cpu)\<close>.\<close>

abbreviation raw_sample :: "env \<Rightarrow> u64" where
  "raw_sample e \<equiv> cpu_clock e (raw_smp_processor_id e)"

text \<open>The primitives a call has added to the history.\<close>

definition call_events :: "kstate \<Rightarrow> kstate \<Rightarrow> (primitive \<times> bool) list" where
  "call_events s s' = drop (length (history s)) (history s')"

text \<open>
  A call runs with interrupts masked for its whole duration when its first primitive is the
  save, every later primitive finds the interrupt-disable flag set, and its last primitive
  is the restore.
\<close>

fun masked_throughout :: "(primitive \<times> bool) list \<Rightarrow> bool" where
  "masked_throughout [] = False"
| "masked_throughout (ev # evs) =
     (fst ev = IRQ_SAVE \<and> evs \<noteq> [] \<and> fst (last evs) = IRQ_RESTORE \<and> list_all snd evs)"

fun is_spin_lock :: "primitive \<Rightarrow> bool" where
  "is_spin_lock (SPIN_LOCK k) = True"
| "is_spin_lock _ = False"

fun strictly_increasing :: "u64 list \<Rightarrow> bool" where
  "strictly_increasing (x # y # zs) = (x < y \<and> strictly_increasing (y # zs))"
| "strictly_increasing _ = True"

subsection \<open>Sample inputs\<close>

definition never_busy :: "nat \<Rightarrow> bool" where
  "never_busy k = False"

definition always_busy :: "nat \<Rightarrow> bool" where
  "always_busy k = True"

definition busy_for :: "nat \<Rightarrow> nat \<Rightarrow> bool" where
  "busy_for n k = (k < n)"

definition same_clock :: "u64 \<Rightarrow> cpu_id \<Rightarrow> u64" where
  "same_clock t c = t"

text \<open>A call on processor \<open>c\<close> whose clocks read \<open>t\<close>.\<close>

definition call_env :: "cpu_id \<Rightarrow> u64 \<Rightarrow> bool \<Rightarrow> (nat \<Rightarrow> bool) \<Rightarrow> env" where
  "call_env c t nmi busy =
     \<lparr> sched_clock = t, raw_smp_processor_id = c, cpu_clock = same_clock t,
       in_nmi = nmi, lock_busy = busy \<rparr>"

definition state_with_prev :: "u64 \<Rightarrow> kstate" where
  "state_with_prev t = boot_state\<lparr> prev_trace_clock_time := t \<rparr>"

subsection \<open>The Broadcom variant of \<open>trace_clock_global\<close>\<close>

text \<open>
  With \<open>CONFIG_MIPS_BRCM\<close> the function reads the clocksource without any lock and never
  touches the interrupt flag. The target is a 32-bit MIPS, so \<open>long\<close> (the type of both
  \<open>timespec\<close> fields) has 32 bits; \<open>cycle_t\<close> is \<open>u64\<close>. The field \<open>mask\<close> of
  the clocksource is \<open>cs_mask\<close> here.
\<close>

type_synonym long = "32 word"

record timespec =
  tv_sec :: long
  tv_nsec :: long

record clocksource =
  cycle_last :: u64
  cs_mask :: u64
  mult_orig :: u32
  shift :: u32
  raw_time :: timespec

definition NSEC_PER_SEC :: u64 where
  "NSEC_PER_SEC = 1000000000"

text \<open>C's \<open>%\<close> on \<open>long\<close>: the remainder of the division that truncates towards zero.\<close>

definition long_rem :: "long \<Rightarrow> long \<Rightarrow> long" where
  "long_rem a b = word_of_int (sint a smod sint b)"

text \<open>
  Lines 97 to 107: the raw time of the clocksource, advanced by the nanoseconds since
  \<open>cycle_last\<close>. \<open>clocksource_read\<close> (the hardware counter) and \<open>timespec_add_ns\<close> (an
  inline helper of \<open>linux/time.h\<close>) are defined outside this file and are parameters here.
  \<open>(s64)cycle_delta * mult_orig\<close> is a 64-bit product and \<open>>>\<close> on \<open>s64\<close> is the
  arithmetic shift. C leaves a product that overflows and a shift count of 64 or more
  undefined; here the product wraps and the shift fills with the sign.
\<close>

definition brcm_timespec ::
  "(clocksource \<Rightarrow> u64) \<Rightarrow> (timespec \<Rightarrow> u64 \<Rightarrow> timespec) \<Rightarrow> clocksource \<Rightarrow> timespec" where
  "brcm_timespec clocksource_read timespec_add_ns clock =
     (let cycle_now = clocksource_read clock;
          cycle_delta = (cycle_now - cycle_last clock) AND cs_mask clock;
          nsecs = signed_drop_bit (unat (shift clock)) (cycle_delta * ucast (mult_orig clock));
          ts = raw_time clock
      in timespec_add_ns ts nsecs)"

text \<open>
  Line 110: \<open>now = ((u64)(ts.tv_sec % 10000)) * NSEC_PER_SEC + ts.tv_nsec\<close>. Both casts
  from \<open>long\<close> to \<open>u64\<close> extend the sign.
\<close>

definition trace_clock_global_brcm ::
  "(clocksource \<Rightarrow> u64) \<Rightarrow> (timespec \<Rightarrow> u64 \<Rightarrow> timespec) \<Rightarrow> clocksource \<Rightarrow> u64" where
  "trace_clock_global_brcm clocksource_read timespec_add_ns clock =
     (let ts = brcm_timespec clocksource_read timespec_add_ns clock;
          now = scast (long_rem (tv_sec ts) 10000) * NSEC_PER_SEC + scast (tv_nsec ts)
      in now)"

text \<open>A timespec as the kernel keeps it: seconds not negative, nanoseconds below one second.\<close>

definition normalised :: "timespec \<Rightarrow> bool" where
  "normalised ts = (0 \<le> sint (tv_sec ts) \<and> 0 \<le> sint (tv_nsec ts) \<and> sint (tv_nsec ts) < 1000000000)"

text \<open>
  Sample parameters: a counter that reads \<open>c\<close>, and an addition that carries the whole
  seconds of \<open>tv_nsec + ns\<close> into \<open>tv_sec\<close>.
\<close>

definition read_at :: "u64 \<Rightarrow> clocksource \<Rightarrow> u64" where
  "read_at c clock = c"

definition add_ns_carry :: "timespec \<Rightarrow> u64 \<Rightarrow> timespec" where
  "add_ns_carry a ns =
     (let total = scast (tv_nsec a) + ns
      in \<lparr> tv_sec = tv_sec a + ucast (total div NSEC_PER_SEC),
           tv_nsec = ucast (total mod NSEC_PER_SEC) \<rparr>)"

text \<open>One nanosecond per cycle, raw time one microsecond before second 10000.\<close>

definition sample_clock :: clocksource where
  "sample_clock =
     \<lparr> cycle_last = 0, cs_mask = 4294967295, mult_orig = 1, shift = 0,
       raw_time = \<lparr> tv_sec = 9999, tv_nsec = 999999000 \<rparr> \<rparr>"

section \<open>Properties\<close>

subsection \<open>The spin and the two paths of \<open>trace_clock_global\<close>\<close>

lemma spin_until_free_finds:
  "\<not> busy (k + d) \<Longrightarrow> \<exists>n. spin_until_free busy k = Some n"
proof (induction d arbitrary: k)
  case 0
  then show ?case by (subst spin_until_free.simps) simp
next
  case (Suc d)
  from Suc.prems have "\<not> busy (Suc k + d)" by simp
  from Suc.IH [OF this] obtain n where "spin_until_free busy (Suc k) = Some n" ..
  then show ?case by (subst spin_until_free.simps) simp
qed

lemma spin_until_free_Some_free:
  assumes "spin_until_free busy k = Some n"
  shows "\<not> busy n"
  by (rule spin_until_free.raw_induct [where P = "\<lambda>busy k n. \<not> busy n", OF _ assms])
     (auto split: if_splits)

lemma trace_clock_global_nmi:
  "in_nmi e \<Longrightarrow> trace_clock_global e s =
     Some (raw_sample e,
           s\<lparr> history := history s @
                [(IRQ_SAVE, irqs_disabled s), (SMP_PROCESSOR_ID, True),
                 (CPU_CLOCK (raw_smp_processor_id e), True), (IN_NMI, True),
                 (IRQ_RESTORE, True)] \<rparr>)"
  by (simp add: trace_clock_global_def raw_local_irq_save_def raw_local_irq_restore_def
      log_prim_def Let_def)

lemma trace_clock_global_guarded:
  "\<not> in_nmi e \<Longrightarrow> spin_until_free (lock_busy e) 0 = Some k \<Longrightarrow>
   trace_clock_global e s =
     (let now' = (if sint (raw_sample e - prev_trace_clock_time s) < 0
                  then prev_trace_clock_time s + 1 else raw_sample e)
      in Some (now',
           s\<lparr> prev_trace_clock_time := now',
              history := history s @
                [(IRQ_SAVE, irqs_disabled s), (SMP_PROCESSOR_ID, True),
                 (CPU_CLOCK (raw_smp_processor_id e), True), (IN_NMI, True),
                 (SPIN_LOCK k, True), (SPIN_UNLOCK, True), (IRQ_RESTORE, True)] \<rparr>))"
  by (simp add: trace_clock_global_def raw_local_irq_save_def raw_local_irq_restore_def
      log_prim_def raw_spin_lock_def raw_spin_unlock_def Let_def)

lemma trace_clock_global_spins:
  "\<not> in_nmi e \<Longrightarrow> spin_until_free (lock_busy e) 0 = None \<Longrightarrow> trace_clock_global e s = None"
  by (simp add: trace_clock_global_def raw_local_irq_save_def raw_spin_lock_def Let_def)

text \<open>A guarded call that finds the lock free at some poll returns, and what it returns.\<close>

lemma guarded_call:
  assumes "\<not> in_nmi e" "\<not> lock_busy e j"
  shows "\<exists>s'. trace_clock_global e s =
           Some (if sint (raw_sample e - prev_trace_clock_time s) < 0
                 then prev_trace_clock_time s + 1 else raw_sample e, s')
         \<and> prev_trace_clock_time s' =
             (if sint (raw_sample e - prev_trace_clock_time s) < 0
              then prev_trace_clock_time s + 1 else raw_sample e)"
proof -
  from assms(2) have "\<not> lock_busy e (0 + j)" by simp
  from spin_until_free_finds [of "lock_busy e" 0 j, OF this]
  obtain k where "spin_until_free (lock_busy e) 0 = Some k" ..
  from trace_clock_global_guarded [OF assms(1) this, of s]
  show ?thesis by (simp add: Let_def)
qed

text \<open>A guarded call that has returned: its value and the state it leaves.\<close>

lemma guarded_result:
  assumes "\<not> in_nmi e" "trace_clock_global e s = Some (v, s')"
  shows "v = (if sint (raw_sample e - prev_trace_clock_time s) < 0
              then prev_trace_clock_time s + 1 else raw_sample e)"
    and "prev_trace_clock_time s' = v"
proof -
  from assms obtain k where k: "spin_until_free (lock_busy e) 0 = Some k"
    by (cases "spin_until_free (lock_busy e) 0") (simp_all add: trace_clock_global_spins)
  from trace_clock_global_guarded [OF assms(1) k, of s] assms(2)
  show "v = (if sint (raw_sample e - prev_trace_clock_time s) < 0
              then prev_trace_clock_time s + 1 else raw_sample e)"
    and "prev_trace_clock_time s' = v"
    by (auto simp: Let_def)
qed

lemma call_env_simps [simp]:
  "raw_smp_processor_id (call_env c t nmi busy) = c"
  "cpu_clock (call_env c t nmi busy) c' = t"
  "in_nmi (call_env c t nmi busy) = nmi"
  "lock_busy (call_env c t nmi busy) = busy"
  "sched_clock (call_env c t nmi busy) = t"
  by (simp_all add: call_env_def same_clock_def)

lemma state_with_prev_simps [simp]:
  "prev_trace_clock_time (state_with_prev t) = t"
  "irqs_disabled (state_with_prev t) = False"
  "history (state_with_prev t) = []"
  "prev_trace_clock_time boot_state = 0"
  "irqs_disabled boot_state = False"
  "history boot_state = []"
  by (simp_all add: state_with_prev_def boot_state_def)

text \<open>Evaluating sample calls.\<close>

lemma spin_never_busy: "spin_until_free never_busy 0 = Some 0"
  by (subst spin_until_free.simps) (simp add: never_busy_def)

lemma uncontended_call:
  "trace_clock_global (call_env c t False never_busy) s =
     (let now' = (if sint (t - prev_trace_clock_time s) < 0
                  then prev_trace_clock_time s + 1 else t)
      in Some (now',
           s\<lparr> prev_trace_clock_time := now',
              history := history s @
                [(IRQ_SAVE, irqs_disabled s), (SMP_PROCESSOR_ID, True),
                 (CPU_CLOCK c, True), (IN_NMI, True),
                 (SPIN_LOCK 0, True), (SPIN_UNLOCK, True), (IRQ_RESTORE, True)] \<rparr>))"
  using trace_clock_global_guarded [of "call_env c t False never_busy" 0 s]
  by (simp add: spin_never_busy)

lemma nmi_call:
  "trace_clock_global (call_env c t True busy) s =
     Some (t, s\<lparr> history := history s @
                [(IRQ_SAVE, irqs_disabled s), (SMP_PROCESSOR_ID, True),
                 (CPU_CLOCK c, True), (IN_NMI, True), (IRQ_RESTORE, True)] \<rparr>)"
  using trace_clock_global_nmi [of "call_env c t True busy" s] by simp

text \<open>The signed 64-bit difference of two values below \<open>2^63\<close> is their difference.\<close>

lemma sint_diff_small:
  fixes a b :: u64
  assumes "a < 2 ^ 63" "b < 2 ^ 63"
  shows "sint (b - a) = uint b - uint a"
proof -
  have A: "uint a < 2 ^ 63" using assms(1) by (simp add: word_less_alt)
  have B: "uint b < 2 ^ 63" using assms(2) by (simp add: word_less_alt)
  have lo: "- (2 ^ 63) \<le> uint b - uint a"
    using A uint_ge_0 [of b] by linarith
  have hi: "uint b - uint a < 2 ^ 63"
    using B uint_ge_0 [of a] by linarith
  have "sint (b - a) = signed_take_bit 63 (take_bit 64 (uint b - uint a))"
    by (simp add: sint_uint uint_word_ariths take_bit_eq_mod)
  also have "\<dots> = signed_take_bit 63 (uint b - uint a)"
    by (simp add: signed_take_bit_take_bit)
  also have "\<dots> = uint b - uint a"
    using lo hi by (rule signed_take_bit_int_eq_self)
  finally show ?thesis .
qed

lemma signed_ge_imp_le:
  fixes a b :: u64
  assumes "a < 2 ^ 63" "b < 2 ^ 63" "0 \<le> sint (b - a)"
  shows "a \<le> b"
  using assms by (simp add: sint_diff_small word_le_def)

text \<open>Sequences of calls.\<close>

lemma calls_Cons_Some:
  assumes "trace_clock_global_calls (e # es) s = Some (ws, s')"
  shows "\<exists>v s1 vs. trace_clock_global e s = Some (v, s1)
           \<and> trace_clock_global_calls es s1 = Some (vs, s') \<and> ws = v # vs"
  using assms by (auto split: option.splits)

text \<open>What any returning call does to the stored time.\<close>

lemma stored_time_step:
  assumes "trace_clock_global e s = Some (v, s1)"
  shows "in_nmi e \<Longrightarrow> prev_trace_clock_time s1 = prev_trace_clock_time s"
    and "\<not> in_nmi e \<Longrightarrow> prev_trace_clock_time s1 = v"
    and "0 \<le> sint (prev_trace_clock_time s1 - prev_trace_clock_time s)"
proof -
  show nmi: "in_nmi e \<Longrightarrow> prev_trace_clock_time s1 = prev_trace_clock_time s"
    using assms by (auto simp: trace_clock_global_nmi)
  show grd: "\<not> in_nmi e \<Longrightarrow> prev_trace_clock_time s1 = v"
    using guarded_result(2) [OF _ assms] .
  show "0 \<le> sint (prev_trace_clock_time s1 - prev_trace_clock_time s)"
  proof (cases "in_nmi e")
    case True
    with nmi show ?thesis by simp
  next
    case False
    from guarded_result(1) [OF False assms] grd [OF False] show ?thesis
      by (auto split: if_splits)
  qed
qed

subsection \<open>A sample equal to the stored time\<close>

text \<open>
  C9. A guarded call whose raw sample equals \<open>prev_trace_clock_time\<close> has a signed
  difference of zero, which is not below zero: the call returns the stored time itself,
  without the forced advance, and stores the same value again. Two such calls one after
  the other return the same timestamp.
\<close>

theorem equal_sample_passes:
  assumes "\<not> in_nmi e1" "\<not> lock_busy e1 j1" "raw_sample e1 = prev_trace_clock_time s"
    and "\<not> in_nmi e2" "\<not> lock_busy e2 j2" "raw_sample e2 = prev_trace_clock_time s"
  shows "\<exists>s1 s2. trace_clock_global e1 s = Some (prev_trace_clock_time s, s1)
           \<and> prev_trace_clock_time s1 = prev_trace_clock_time s
           \<and> trace_clock_global e2 s1 = Some (prev_trace_clock_time s, s2)
           \<and> prev_trace_clock_time s2 = prev_trace_clock_time s"
proof -
  from guarded_call [OF assms(1,2), of s] assms(3)
  obtain s1 where s1: "trace_clock_global e1 s = Some (prev_trace_clock_time s, s1)"
    "prev_trace_clock_time s1 = prev_trace_clock_time s" by auto
  from guarded_call [OF assms(4,5), of s1] assms(6) s1(2)
  obtain s2 where "trace_clock_global e2 s1 = Some (prev_trace_clock_time s, s2)"
    "prev_trace_clock_time s2 = prev_trace_clock_time s" by auto
  with s1 show ?thesis by blast
qed

theorem equal_sample_passes_witness:
  "\<exists>s1 s2. trace_clock_global (call_env 0 1000 False never_busy) (state_with_prev 1000)
               = Some (1000, s1)
           \<and> prev_trace_clock_time s1 = 1000
           \<and> trace_clock_global (call_env 1 1000 False (busy_for 2)) s1 = Some (1000, s2)
           \<and> prev_trace_clock_time s2 = 1000"
  using equal_sample_passes [of "call_env 0 1000 False never_busy" 0 "state_with_prev 1000"
      "call_env 1 1000 False (busy_for 2)" 2]
  by (simp add: never_busy_def busy_for_def)


subsection \<open>The forced advance\<close>

text \<open>
  C2, as stated, at a raw sample equal to the stored time: the stored time is 1000, the
  sample is 1000 (so it is \<open>\<le>\<close> the stored time), and the call returns 1000, not 1001.
\<close>

theorem forced_advance_counterexample:
  "raw_sample (call_env 0 1000 False never_busy) \<le> prev_trace_clock_time (state_with_prev 1000)
   \<and> map_option fst (trace_clock_global (call_env 0 1000 False never_busy) (state_with_prev 1000))
       = Some 1000
   \<and> map_option fst (trace_clock_global (call_env 0 1000 False never_busy) (state_with_prev 1000))
       \<noteq> Some (prev_trace_clock_time (state_with_prev 1000) + 1)"
proof -
  have "spin_until_free never_busy 0 = Some 0"
    by (subst spin_until_free.simps) (simp add: never_busy_def)
  then show ?thesis
    by (simp add: trace_clock_global_guarded Let_def)
qed

text \<open>
  C2, amended. A guarded call whose raw sample is strictly behind the stored time under
  the signed 64-bit difference, \<open>(s64)(now - prev_trace_clock_time) < 0\<close>, returns the
  stored time plus exactly one (in 64-bit arithmetic) and stores that value.
\<close>

theorem forced_advance:
  assumes "\<not> in_nmi e" "\<not> lock_busy e j"
    and "sint (raw_sample e - prev_trace_clock_time s) < 0"
  shows "\<exists>s'. trace_clock_global e s = Some (prev_trace_clock_time s + 1, s')
           \<and> prev_trace_clock_time s' = prev_trace_clock_time s + 1"
  using guarded_call [OF assms(1,2), of s] assms(3) by auto

theorem forced_advance_witness:
  "sint (raw_sample (call_env 3 4000 False (busy_for 1))
           - prev_trace_clock_time (state_with_prev 5000)) < 0
   \<and> (\<exists>s'. trace_clock_global (call_env 3 4000 False (busy_for 1)) (state_with_prev 5000)
               = Some (5001, s')
          \<and> prev_trace_clock_time s' = 5001)"
proof -
  have behind: "sint (raw_sample (call_env 3 4000 False (busy_for 1))
           - prev_trace_clock_time (state_with_prev 5000)) < 0"
    by simp
  have free: "\<not> lock_busy (call_env 3 4000 False (busy_for 1)) 1"
    by (simp add: busy_for_def)
  from forced_advance [OF _ free behind] behind show ?thesis by simp
qed

text \<open>
  C5. The first guarded call returns 1000, so the stored time is 1000. The next guarded
  call samples 998, two behind: it returns 1001, and 1001 is the new stored time.
\<close>

theorem skewed_processor_scenario:
  assumes "\<not> in_nmi a" "trace_clock_global a s = Some (1000, s1)"
    and "\<not> in_nmi b" "\<not> lock_busy b j" "raw_sample b = 998"
  shows "\<exists>s2. trace_clock_global b s1 = Some (1001, s2) \<and> prev_trace_clock_time s2 = 1001"
proof -
  from guarded_result(2) [OF assms(1,2)] have "prev_trace_clock_time s1 = 1000" .
  with guarded_call [OF assms(3,4), of s1] assms(5) show ?thesis by auto
qed

theorem skewed_processor_scenario_witness:
  "\<exists>s1 s2. trace_clock_global (call_env 0 1000 False never_busy) boot_state = Some (1000, s1)
     \<and> trace_clock_global (call_env 1 998 False never_busy) s1 = Some (1001, s2)
     \<and> prev_trace_clock_time s2 = 1001"
proof -
  have free: "\<not> lock_busy (call_env 0 1000 False never_busy) 0"
    "\<not> lock_busy (call_env 1 998 False never_busy) 0"
    by (simp_all add: never_busy_def)
  from guarded_call [OF _ free(1), of boot_state]
  obtain s1 where s1: "trace_clock_global (call_env 0 1000 False never_busy) boot_state
      = Some (1000, s1)"
    by auto
  from skewed_processor_scenario [OF _ s1 _ free(2)] s1 show ?thesis by auto
qed

subsection \<open>A sample ahead of the stored time\<close>

text \<open>
  C6. A guarded call whose raw sample is strictly ahead of the stored time under the
  signed 64-bit difference returns the sample unchanged and stores it. In particular two
  calls on one processor that sample 1000 and then 1500, starting from a stored time that
  1000 is ahead of (the initial zero, for one), return 1000 and 1500.
\<close>

theorem sample_ahead_passes:
  "(\<not> in_nmi e \<and> \<not> lock_busy e j \<and> 0 < sint (raw_sample e - prev_trace_clock_time s)
      \<longrightarrow> (\<exists>s'. trace_clock_global e s = Some (raw_sample e, s')
             \<and> prev_trace_clock_time s' = raw_sample e))
   \<and> (0 < sint (1000 - prev_trace_clock_time s)
      \<longrightarrow> map_option fst (trace_clock_global_calls
             [call_env c 1000 False never_busy, call_env c 1500 False never_busy] s)
           = Some [1000, 1500])"
proof (intro conjI impI)
  assume "\<not> in_nmi e \<and> \<not> lock_busy e j \<and> 0 < sint (raw_sample e - prev_trace_clock_time s)"
  then have h: "\<not> in_nmi e" "\<not> lock_busy e j"
    "\<not> sint (raw_sample e - prev_trace_clock_time s) < 0" by auto
  from guarded_call [OF h(1,2), of s] h(3)
  show "\<exists>s'. trace_clock_global e s = Some (raw_sample e, s')
             \<and> prev_trace_clock_time s' = raw_sample e" by auto
next
  assume "0 < sint (1000 - prev_trace_clock_time s)"
  then have ahead: "\<not> sint (1000 - prev_trace_clock_time s) < 0" by simp
  have free: "\<not> lock_busy (call_env c 1000 False never_busy) 0"
    "\<not> lock_busy (call_env c 1500 False never_busy) 0"
    by (simp_all add: never_busy_def)
  from guarded_call [OF _ free(1), of s] ahead
  obtain s1 where s1: "trace_clock_global (call_env c 1000 False never_busy) s = Some (1000, s1)"
    "prev_trace_clock_time s1 = 1000" by auto
  from guarded_call [OF _ free(2), of s1] s1(2)
  obtain s2 where s2: "trace_clock_global (call_env c 1500 False never_busy) s1 = Some (1500, s2)"
    by auto
  from s1(1) s2 show "map_option fst (trace_clock_global_calls
             [call_env c 1000 False never_busy, call_env c 1500 False never_busy] s)
           = Some [1000, 1500]" by simp
qed

theorem sample_ahead_passes_witness:
  "(\<exists>s'. trace_clock_global (call_env 2 1000 False never_busy) boot_state = Some (1000, s')
             \<and> prev_trace_clock_time s' = 1000)
   \<and> map_option fst (trace_clock_global_calls
        [call_env 2 1000 False never_busy, call_env 2 1500 False never_busy] boot_state)
      = Some [1000, 1500]"
  using sample_ahead_passes [of "call_env 2 1000 False never_busy" 0 boot_state 2]
  by (simp add: never_busy_def)

subsection \<open>The NMI path\<close>

text \<open>
  C3. A call made while \<open>in_nmi()\<close> holds returns the raw sample of \<open>cpu_clock\<close>
  unmodified, whatever the state of the lock; the primitives it runs are the save, the two
  reads, the \<open>in_nmi\<close> test and the restore, so the lock is not acquired; and
  \<open>prev_trace_clock_time\<close> keeps its value.
\<close>

theorem nmi_bypass:
  assumes "in_nmi e"
  shows "\<exists>s'. trace_clock_global e s = Some (raw_sample e, s')
          \<and> prev_trace_clock_time s' = prev_trace_clock_time s
          \<and> call_events s s' =
              [(IRQ_SAVE, irqs_disabled s), (SMP_PROCESSOR_ID, True),
               (CPU_CLOCK (raw_smp_processor_id e), True), (IN_NMI, True), (IRQ_RESTORE, True)]
          \<and> filter (\<lambda>ev. is_spin_lock (fst ev)) (call_events s s') = []"
  by (simp add: trace_clock_global_nmi [OF assms] call_events_def)

theorem nmi_bypass_witness:
  "\<exists>s'. trace_clock_global (call_env 0 4000 True always_busy) (state_with_prev 5000)
            = Some (4000, s')
          \<and> prev_trace_clock_time s' = 5000
          \<and> call_events (state_with_prev 5000) s' =
              [(IRQ_SAVE, False), (SMP_PROCESSOR_ID, True),
               (CPU_CLOCK 0, True), (IN_NMI, True), (IRQ_RESTORE, True)]
          \<and> filter (\<lambda>ev. is_spin_lock (fst ev)) (call_events (state_with_prev 5000) s') = []"
  using nmi_bypass [of "call_env 0 4000 True always_busy" "state_with_prev 5000"]
  by simp


subsection \<open>Sequences of guarded calls\<close>

text \<open>
  Each value of a sequence of guarded calls is determined by the value before it and the
  raw sample of its own call.
\<close>

lemma consecutive_guarded_calls:
  assumes "\<forall>e\<in>set es. \<not> in_nmi e"
    and "trace_clock_global_calls es s = Some (vs, s')"
    and "Suc i < length vs"
  shows "vs ! Suc i =
          (if sint (raw_sample (es ! Suc i) - vs ! i) < 0 then vs ! i + 1
           else raw_sample (es ! Suc i))"
  using assms
proof (induction es arbitrary: s vs i)
  case Nil
  then show ?case by simp
next
  case (Cons e es)
  from calls_Cons_Some [OF Cons.prems(2)]
  obtain v s1 ws where first: "trace_clock_global e s = Some (v, s1)"
    and rest: "trace_clock_global_calls es s1 = Some (ws, s')"
    and vs: "vs = v # ws" by blast
  show ?case
  proof (cases i)
    case 0
    with Cons.prems(3) vs have "ws \<noteq> []" by auto
    with rest obtain e2 es2 where es: "es = e2 # es2" by (cases es) auto
    from calls_Cons_Some [OF rest [unfolded es]]
    obtain v2 s2 ws2 where second: "trace_clock_global e2 s1 = Some (v2, s2)"
      and ws: "ws = v2 # ws2" by blast
    from Cons.prems(1) es have guarded: "\<not> in_nmi e" "\<not> in_nmi e2" by auto
    from guarded_result(2) [OF guarded(1) first] have "prev_trace_clock_time s1 = v" .
    with guarded_result(1) [OF guarded(2) second]
    show ?thesis by (simp add: 0 vs ws es)
  next
    case (Suc i')
    from Cons.prems(1) have "\<forall>e\<in>set es. \<not> in_nmi e" by simp
    moreover from Cons.prems(3) vs Suc have "Suc i' < length ws" by simp
    ultimately show ?thesis
      using Cons.IH [OF _ rest, of i'] by (simp add: Suc vs)
  qed
qed

text \<open>
  C1, as stated, at two guarded calls that both sample 1000, starting from the initial
  state: both return 1000, and the sequence of results is not strictly increasing.
\<close>

theorem strict_monotonicity_counterexample:
  "map_option fst (trace_clock_global_calls
      [call_env 0 1000 False never_busy, call_env 1 1000 False never_busy] boot_state)
     = Some [1000, 1000]
   \<and> \<not> strictly_increasing [1000, 1000]"
  by (simp add: uncontended_call Let_def)

text \<open>
  C1, amended. In a sequence of guarded (non-NMI) calls, taken in the order in which they
  hold the lock, no value is behind the one before it under the signed 64-bit difference
  that the code compares with: \<open>(s64)(result[i+1] - result[i]) \<ge> 0\<close>. Two
  neighbouring values are equal exactly when the later call sampled the earlier value.
  So, for values below \<open>2^63\<close>, \<open>result[i+1] \<ge> result[i]\<close>, and
  \<open>result[i+1] > result[i]\<close> unless the raw sample of call \<open>i+1\<close> equals
  \<open>result[i]\<close>.
\<close>

theorem guarded_sequence_never_backward:
  assumes "\<forall>e\<in>set es. \<not> in_nmi e"
    and "trace_clock_global_calls es s = Some (vs, s')"
    and "Suc i < length vs"
  shows "0 \<le> sint (vs ! Suc i - vs ! i)
       \<and> (vs ! Suc i = vs ! i \<longleftrightarrow> raw_sample (es ! Suc i) = vs ! i)
       \<and> (vs ! i < 2 ^ 63 \<and> vs ! Suc i < 2 ^ 63 \<longrightarrow> vs ! i \<le> vs ! Suc i)"
proof -
  let ?a = "vs ! i" and ?b = "vs ! Suc i" and ?now = "raw_sample (es ! Suc i)"
  from consecutive_guarded_calls [OF assms]
  have b: "?b = (if sint (?now - ?a) < 0 then ?a + 1 else ?now)" .
  have ge: "0 \<le> sint (?b - ?a)"
    using b by (auto split: if_splits)
  have eq: "?b = ?a \<longleftrightarrow> ?now = ?a"
    using b by (auto split: if_splits)
  have le: "?a < 2 ^ 63 \<and> ?b < 2 ^ 63 \<longrightarrow> ?a \<le> ?b"
    using ge signed_ge_imp_le [of ?a ?b] by blast
  from ge eq le show ?thesis by blast
qed

theorem guarded_sequence_never_backward_witness:
  "map_option fst (trace_clock_global_calls
      [call_env 0 1000 False never_busy, call_env 1 998 False never_busy,
       call_env 0 1001 False never_busy] boot_state)
     = Some [1000, 1001, 1001]
   \<and> 0 \<le> sint ([1000, 1001, 1001 :: u64] ! Suc 0 - [1000, 1001, 1001] ! 0)
   \<and> [1000, 1001, 1001 :: u64] ! 0 \<le> [1000, 1001, 1001] ! Suc 0"
proof -
  let ?es = "[call_env 0 1000 False never_busy, call_env 1 998 False never_busy,
       call_env 0 1001 False never_busy]"
  obtain s' where run: "trace_clock_global_calls ?es boot_state = Some ([1000, 1001, 1001], s')"
    by (simp add: uncontended_call Let_def)
  have guarded: "\<forall>e\<in>set ?es. \<not> in_nmi e" by simp
  from guarded_sequence_never_backward [OF guarded run, of 0] run
  show ?thesis by simp
qed

subsection \<open>The stored time over a sequence of calls\<close>

text \<open>
  C4, as stated, at a call from NMI context: the stored time is 5000, the processor
  samples 6000, the call returns 6000 and leaves the stored time at 5000. The returned
  value is above the stored time.
\<close>

theorem returned_le_stored_counterexample:
  "map_option fst (trace_clock_global (call_env 0 6000 True never_busy) (state_with_prev 5000))
     = Some 6000
   \<and> map_option (prev_trace_clock_time \<circ> snd)
        (trace_clock_global (call_env 0 6000 True never_busy) (state_with_prev 5000))
     = Some 5000
   \<and> \<not> (6000 :: u64) \<le> 5000"
  by (simp add: nmi_call)

text \<open>
  C4, amended. Every returning call leaves the stored time not behind its old value under
  the signed 64-bit difference; a guarded call returns the value it stores, and a call
  from NMI context stores nothing. Over any sequence of calls, NMI or not, that starts with
  a stored time below \<open>2^63\<close> and whose guarded calls return values below \<open>2^63\<close>:
  the stored time at the end is not less than at the start, and every value returned by a
  guarded call is \<open>\<le>\<close> the stored time at the end. Values returned from NMI context
  are raw samples and are not bounded by the stored time.
\<close>

theorem stored_time_bounds_guarded_results:
  "(trace_clock_global e s = Some (v, s1) \<longrightarrow>
      0 \<le> sint (prev_trace_clock_time s1 - prev_trace_clock_time s)
      \<and> (\<not> in_nmi e \<longrightarrow> prev_trace_clock_time s1 = v)
      \<and> (in_nmi e \<longrightarrow> prev_trace_clock_time s1 = prev_trace_clock_time s))
   \<and> (trace_clock_global_calls es s = Some (vs, s')
      \<and> prev_trace_clock_time s < 2 ^ 63
      \<and> (\<forall>(e, v) \<in> set (zip es vs). \<not> in_nmi e \<longrightarrow> v < 2 ^ 63) \<longrightarrow>
      prev_trace_clock_time s \<le> prev_trace_clock_time s'
      \<and> prev_trace_clock_time s' < 2 ^ 63
      \<and> (\<forall>(e, v) \<in> set (zip es vs). \<not> in_nmi e \<longrightarrow> v \<le> prev_trace_clock_time s'))"
proof (intro conjI impI)
  assume "trace_clock_global_calls es s = Some (vs, s')
      \<and> prev_trace_clock_time s < 2 ^ 63
      \<and> (\<forall>(e, v) \<in> set (zip es vs). \<not> in_nmi e \<longrightarrow> v < 2 ^ 63)"
  then have run: "trace_clock_global_calls es s = Some (vs, s')"
    and start: "prev_trace_clock_time s < 2 ^ 63"
    and small: "\<forall>(e, v) \<in> set (zip es vs). \<not> in_nmi e \<longrightarrow> v < 2 ^ 63"
    by blast+
  from run start small
  have "prev_trace_clock_time s \<le> prev_trace_clock_time s'
      \<and> prev_trace_clock_time s' < 2 ^ 63
      \<and> (\<forall>(e, v) \<in> set (zip es vs). \<not> in_nmi e \<longrightarrow> v \<le> prev_trace_clock_time s')"
  proof (induction es arbitrary: s vs)
    case Nil
    then show ?case by simp
  next
    case (Cons e es)
    from calls_Cons_Some [OF Cons.prems(1)]
    obtain v s1 ws where first: "trace_clock_global e s = Some (v, s1)"
      and rest: "trace_clock_global_calls es s1 = Some (ws, s')"
      and vs: "vs = v # ws" by blast
    from Cons.prems(3) vs have v_small: "\<not> in_nmi e \<Longrightarrow> v < 2 ^ 63"
      and ws_small: "\<forall>(e, v) \<in> set (zip es ws). \<not> in_nmi e \<longrightarrow> v < 2 ^ 63"
      by auto
    have mid: "prev_trace_clock_time s1 < 2 ^ 63"
      using stored_time_step(1,2) [OF first] v_small Cons.prems(2)
      by (cases "in_nmi e") simp_all
    from signed_ge_imp_le [OF Cons.prems(2) mid stored_time_step(3) [OF first]]
    have up: "prev_trace_clock_time s \<le> prev_trace_clock_time s1" .
    from Cons.IH [OF rest mid ws_small]
    have later: "prev_trace_clock_time s1 \<le> prev_trace_clock_time s'"
      "prev_trace_clock_time s' < 2 ^ 63"
      "\<forall>(e, v) \<in> set (zip es ws). \<not> in_nmi e \<longrightarrow> v \<le> prev_trace_clock_time s'"
      by blast+
    have "\<not> in_nmi e \<Longrightarrow> v \<le> prev_trace_clock_time s'"
      using stored_time_step(2) [OF first] later(1) by simp
    with up later show ?case by (auto simp: vs)
  qed
  then show "prev_trace_clock_time s \<le> prev_trace_clock_time s'"
    and "prev_trace_clock_time s' < 2 ^ 63"
    and "\<forall>(e, v) \<in> set (zip es vs). \<not> in_nmi e \<longrightarrow> v \<le> prev_trace_clock_time s'"
    by blast+
next
  assume "trace_clock_global e s = Some (v, s1)"
  then show "0 \<le> sint (prev_trace_clock_time s1 - prev_trace_clock_time s)"
    by (rule stored_time_step(3))
next
  assume "trace_clock_global e s = Some (v, s1)" "\<not> in_nmi e"
  then show "prev_trace_clock_time s1 = v"
    by (rule stored_time_step(2))
next
  assume "trace_clock_global e s = Some (v, s1)" "in_nmi e"
  then show "prev_trace_clock_time s1 = prev_trace_clock_time s"
    by (rule stored_time_step(1))
qed

theorem stored_time_bounds_guarded_results_witness:
  "\<exists>s'. trace_clock_global_calls
      [call_env 0 1000 False never_busy, call_env 1 6000 True always_busy,
       call_env 1 998 False never_busy, call_env 0 3000 False never_busy] boot_state
     = Some ([1000, 6000, 1001, 3000], s')
   \<and> prev_trace_clock_time s' = 3000
   \<and> prev_trace_clock_time boot_state \<le> prev_trace_clock_time s'
   \<and> (1000 :: u64) \<le> prev_trace_clock_time s'
   \<and> (1001 :: u64) \<le> prev_trace_clock_time s'"
proof -
  let ?es = "[call_env 0 1000 False never_busy, call_env 1 6000 True always_busy,
       call_env 1 998 False never_busy, call_env 0 3000 False never_busy]"
  obtain s' where run: "trace_clock_global_calls ?es boot_state
      = Some ([1000, 6000, 1001, 3000], s')"
    and final: "prev_trace_clock_time s' = 3000"
    by (simp add: uncontended_call nmi_call Let_def)
  have small: "\<forall>(e, v) \<in> set (zip ?es [1000, 6000, 1001, 3000 :: u64]).
      \<not> in_nmi e \<longrightarrow> v < 2 ^ 63"
    by simp
  have start: "prev_trace_clock_time boot_state < 2 ^ 63" by simp
  from stored_time_bounds_guarded_results [where es = ?es and s = boot_state
      and vs = "[1000, 6000, 1001, 3000]" and s' = s'] run start small
  have "prev_trace_clock_time boot_state \<le> prev_trace_clock_time s'
      \<and> (\<forall>(e, v) \<in> set (zip ?es [1000, 6000, 1001, 3000 :: u64]).
           \<not> in_nmi e \<longrightarrow> v \<le> prev_trace_clock_time s')"
    by blast
  with run final show ?thesis by simp
qed


subsection \<open>Interrupt masking\<close>

text \<open>
  C7, as stated, at \<open>trace_clock\<close> called with interrupts enabled: the function runs
  \<open>raw_smp_processor_id()\<close> and calls \<open>cpu_clock()\<close> with the interrupt-disable flag
  clear; it contains no save and no restore.
\<close>

theorem all_readers_masked_counterexample:
  "call_events boot_state (snd (trace_clock (call_env 0 1000 False never_busy) boot_state))
     = [(SMP_PROCESSOR_ID, False), (CPU_CLOCK 0, False)]
   \<and> \<not> masked_throughout
         (call_events boot_state (snd (trace_clock (call_env 0 1000 False never_busy) boot_state)))"
  by (simp add: trace_clock_def log_prim_def call_events_def Let_def)

text \<open>
  C7, amended. \<open>trace_clock_local\<close> and the portable \<open>trace_clock_global\<close> run with
  local interrupts masked from their first primitive (the save) to their last (the
  restore), and leave the interrupt-disable flag as they found it on every path that
  returns: the early exit from NMI context and the path through the lock.
  \<open>trace_clock\<close> itself neither masks nor restores: it runs \<open>raw_smp_processor_id()\<close>
  and calls \<open>cpu_clock()\<close> under the caller's interrupt state, which it leaves unchanged.
\<close>

theorem interrupt_masking:
  "masked_throughout (call_events s (snd (trace_clock_local e s)))
   \<and> irqs_disabled (snd (trace_clock_local e s)) = irqs_disabled s
   \<and> (trace_clock_global e s = Some (v, s') \<longrightarrow>
        masked_throughout (call_events s s') \<and> irqs_disabled s' = irqs_disabled s)
   \<and> call_events s (snd (trace_clock e s)) =
        [(SMP_PROCESSOR_ID, irqs_disabled s),
         (CPU_CLOCK (raw_smp_processor_id e), irqs_disabled s)]
   \<and> irqs_disabled (snd (trace_clock e s)) = irqs_disabled s"
proof (intro conjI impI)
  show "masked_throughout (call_events s (snd (trace_clock_local e s)))"
    by (simp add: trace_clock_local_def raw_local_irq_save_def raw_local_irq_restore_def
        log_prim_def call_events_def Let_def)
  show "irqs_disabled (snd (trace_clock_local e s)) = irqs_disabled s"
    by (simp add: trace_clock_local_def raw_local_irq_save_def raw_local_irq_restore_def
        log_prim_def Let_def)
  show "call_events s (snd (trace_clock e s)) =
        [(SMP_PROCESSOR_ID, irqs_disabled s),
         (CPU_CLOCK (raw_smp_processor_id e), irqs_disabled s)]"
    by (simp add: trace_clock_def log_prim_def call_events_def Let_def)
  show "irqs_disabled (snd (trace_clock e s)) = irqs_disabled s"
    by (simp add: trace_clock_def log_prim_def Let_def)
next
  assume ret: "trace_clock_global e s = Some (v, s')"
  show "masked_throughout (call_events s s')"
  proof (cases "in_nmi e")
    case True
    with ret show ?thesis
      by (auto simp: trace_clock_global_nmi call_events_def)
  next
    case False
    with ret obtain k where "spin_until_free (lock_busy e) 0 = Some k"
      by (cases "spin_until_free (lock_busy e) 0") (simp_all add: trace_clock_global_spins)
    from trace_clock_global_guarded [OF False this, of s] ret show ?thesis
      by (auto simp: call_events_def Let_def)
  qed
  show "irqs_disabled s' = irqs_disabled s"
  proof (cases "in_nmi e")
    case True
    with ret show ?thesis
      by (auto simp: trace_clock_global_nmi)
  next
    case False
    with ret obtain k where "spin_until_free (lock_busy e) 0 = Some k"
      by (cases "spin_until_free (lock_busy e) 0") (simp_all add: trace_clock_global_spins)
    from trace_clock_global_guarded [OF False this, of s] ret show ?thesis
      by (auto simp: Let_def)
  qed
qed

theorem interrupt_masking_witness:
  "\<exists>s'. trace_clock_global (call_env 0 998 False never_busy) (state_with_prev 1000)
            = Some (1001, s')
       \<and> masked_throughout (call_events (state_with_prev 1000) s')
       \<and> irqs_disabled s' = irqs_disabled (state_with_prev 1000)
       \<and> masked_throughout (call_events (state_with_prev 1000)
             (snd (trace_clock_local (call_env 0 998 False never_busy) (state_with_prev 1000))))"
proof -
  obtain s' where ret: "trace_clock_global (call_env 0 998 False never_busy) (state_with_prev 1000)
            = Some (1001, s')"
    by (simp add: uncontended_call Let_def)
  from interrupt_masking [of "state_with_prev 1000" "call_env 0 998 False never_busy" 1001 s'] ret
  show ?thesis by blast
qed

subsection \<open>Returning\<close>



subsection \<open>The Broadcom variant\<close>

text \<open>Casts and remainder on values that are not negative.\<close>

lemma sint_long_rem_10000:
  assumes "0 \<le> sint x"
  shows "sint (long_rem x 10000) = sint x mod 10000"
proof -
  let ?m = "sint x mod 10000"
  have smod: "sint x smod 10000 = ?m"
    using assms by (simp add: smod_int_alt_def sgn_if)
  have "0 \<le> ?m" "?m < 10000" by simp_all
  then have range: "- (2 ^ 31) \<le> ?m" "?m < 2 ^ 31" by simp_all
  have "sint (10000 :: long) = 10000" by simp
  then have "long_rem x 10000 = word_of_int ?m"
    by (simp only: long_rem_def smod)
  then have "sint (long_rem x 10000) = signed_take_bit 31 ?m"
    by (simp only: sint_sbintrunc') simp
  also have "\<dots> = ?m"
    using range by (rule signed_take_bit_int_eq_self)
  finally show ?thesis .
qed

lemma uint_scast_nonneg:
  fixes w :: long
  assumes "0 \<le> sint w"
  shows "uint (scast w :: u64) = sint w"
proof -
  have "sint w < 2 ^ 31" using sint_lt [of w] by simp
  then have hi: "sint w < 2 ^ 64" by simp
  have "uint (scast w :: u64) = take_bit 64 (sint w)"
    by (simp only: scast_eq uint_word_of_int_eq) simp
  also have "\<dots> = sint w"
    using assms hi by (rule take_bit_int_eq_self)
  finally show ?thesis .
qed

lemma brcm_value:
  assumes "normalised ts"
  shows "uint (scast (long_rem (tv_sec ts) 10000) * NSEC_PER_SEC + scast (tv_nsec ts) :: u64)
          = (sint (tv_sec ts) mod 10000) * 1000000000 + sint (tv_nsec ts)"
proof -
  let ?m = "sint (tv_sec ts) mod 10000" and ?n = "sint (tv_nsec ts)"
  from assms have sec: "0 \<le> sint (tv_sec ts)" and n: "0 \<le> ?n" "?n < 1000000000"
    by (simp_all add: normalised_def)
  have m: "0 \<le> ?m" "?m < 10000" by simp_all
  have A: "uint (scast (long_rem (tv_sec ts) 10000) :: u64) = ?m"
    using uint_scast_nonneg [of "long_rem (tv_sec ts) 10000"] m sint_long_rem_10000 [OF sec]
    by simp
  have B: "uint (scast (tv_nsec ts) :: u64) = ?n"
    by (rule uint_scast_nonneg [OF n(1)])
  have bound: "?m * 1000000000 + ?n < 2 ^ 64"
  proof -
    have "?m * 1000000000 \<le> 9999 * 1000000000" using m by simp
    with n(2) show ?thesis by simp
  qed
  have nonneg: "0 \<le> ?m * 1000000000 + ?n" using m n(1) by simp
  have "uint (scast (long_rem (tv_sec ts) 10000) * NSEC_PER_SEC + scast (tv_nsec ts) :: u64)
        = (?m * 1000000000 + ?n) mod 2 ^ 64"
    by (simp add: uint_word_ariths A B NSEC_PER_SEC_def mod_add_left_eq mod_simps)
  also have "\<dots> = ?m * 1000000000 + ?n"
    using nonneg bound by simp
  finally show ?thesis .
qed

text \<open>
  C10. In the \<open>CONFIG_MIPS_BRCM\<close> variant the returned timestamp is
  \<open>(seconds mod 10000) * 10^9 + nanoseconds\<close> of the advanced raw time, for a timespec in
  normal form. It stays below \<open>10^13\<close> and falls back when the seconds pass a multiple of
  10000: a reading taken in second \<open>10000 q + 9999\<close> is larger than any reading taken in
  the second after it.
\<close>

theorem brcm_seconds_truncated:
  assumes "normalised (brcm_timespec r1 a c1)"
  shows "uint (trace_clock_global_brcm r1 a c1) =
           (sint (tv_sec (brcm_timespec r1 a c1)) mod 10000) * 1000000000
             + sint (tv_nsec (brcm_timespec r1 a c1))
       \<and> uint (trace_clock_global_brcm r1 a c1) < 10000000000000
       \<and> (normalised (brcm_timespec r2 a c2)
            \<and> sint (tv_sec (brcm_timespec r1 a c1)) mod 10000 = 9999
            \<and> sint (tv_sec (brcm_timespec r2 a c2)) = sint (tv_sec (brcm_timespec r1 a c1)) + 1
          \<longrightarrow> trace_clock_global_brcm r2 a c2 < trace_clock_global_brcm r1 a c1)"
proof -
  let ?t1 = "brcm_timespec r1 a c1" and ?t2 = "brcm_timespec r2 a c2"
  have v1: "uint (trace_clock_global_brcm r1 a c1) =
      (sint (tv_sec ?t1) mod 10000) * 1000000000 + sint (tv_nsec ?t1)"
    using brcm_value [OF assms] by (simp add: trace_clock_global_brcm_def Let_def)
  from assms have n1: "0 \<le> sint (tv_nsec ?t1)" "sint (tv_nsec ?t1) < 1000000000"
    by (simp_all add: normalised_def)
  have m1: "sint (tv_sec ?t1) mod 10000 < 10000" by simp
  then have "(sint (tv_sec ?t1) mod 10000) * 1000000000 \<le> 9999 * 1000000000" by simp
  with v1 n1(2) have below: "uint (trace_clock_global_brcm r1 a c1) < 10000000000000"
    by simp
  have wrap: "trace_clock_global_brcm r2 a c2 < trace_clock_global_brcm r1 a c1"
    if later: "normalised ?t2" "sint (tv_sec ?t1) mod 10000 = 9999"
      "sint (tv_sec ?t2) = sint (tv_sec ?t1) + 1"
  proof -
    have v2: "uint (trace_clock_global_brcm r2 a c2) =
        (sint (tv_sec ?t2) mod 10000) * 1000000000 + sint (tv_nsec ?t2)"
      using brcm_value [OF later(1)] by (simp add: trace_clock_global_brcm_def Let_def)
    have "sint (tv_sec ?t2) mod 10000 = (sint (tv_sec ?t1) mod 10000 + 1) mod 10000"
      by (simp only: later(3) mod_add_left_eq)
    then have "sint (tv_sec ?t2) mod 10000 = 0"
      by (simp add: later(2))
    with v2 have "uint (trace_clock_global_brcm r2 a c2) = sint (tv_nsec ?t2)" by simp
    moreover from later(1) have "sint (tv_nsec ?t2) < 1000000000"
      by (simp add: normalised_def)
    moreover from v1 later(2) n1(1)
    have "9999 * 1000000000 \<le> uint (trace_clock_global_brcm r1 a c1)" by simp
    ultimately show ?thesis by (simp add: word_less_def)
  qed
  from v1 below wrap show ?thesis by blast
qed

theorem brcm_seconds_truncated_witness:
  "normalised (brcm_timespec (read_at 999) add_ns_carry sample_clock)
   \<and> normalised (brcm_timespec (read_at 1000) add_ns_carry sample_clock)
   \<and> brcm_timespec (read_at 999) add_ns_carry sample_clock
       = \<lparr> tv_sec = 9999, tv_nsec = 999999999 \<rparr>
   \<and> brcm_timespec (read_at 1000) add_ns_carry sample_clock
       = \<lparr> tv_sec = 10000, tv_nsec = 0 \<rparr>
   \<and> uint (trace_clock_global_brcm (read_at 999) add_ns_carry sample_clock) = 9999999999999
   \<and> trace_clock_global_brcm (read_at 1000) add_ns_carry sample_clock
       < trace_clock_global_brcm (read_at 999) add_ns_carry sample_clock"
proof -
  have t1: "brcm_timespec (read_at 999) add_ns_carry sample_clock
      = \<lparr> tv_sec = 9999, tv_nsec = 999999999 \<rparr>"
    by (simp add: brcm_timespec_def read_at_def add_ns_carry_def sample_clock_def
        NSEC_PER_SEC_def Let_def)
  have t2: "brcm_timespec (read_at 1000) add_ns_carry sample_clock
      = \<lparr> tv_sec = 10000, tv_nsec = 0 \<rparr>"
    by (simp add: brcm_timespec_def read_at_def add_ns_carry_def sample_clock_def
        NSEC_PER_SEC_def Let_def)
  have n1: "normalised (brcm_timespec (read_at 999) add_ns_carry sample_clock)"
    by (simp add: t1 normalised_def)
  have n2: "normalised (brcm_timespec (read_at 1000) add_ns_carry sample_clock)"
    by (simp add: t2 normalised_def)
  from brcm_seconds_truncated [OF n1, of "read_at 1000" sample_clock] n2
  have "uint (trace_clock_global_brcm (read_at 999) add_ns_carry sample_clock) = 9999999999999
    \<and> trace_clock_global_brcm (read_at 1000) add_ns_carry sample_clock
       < trace_clock_global_brcm (read_at 999) add_ns_carry sample_clock"
    by (simp add: t1 t2)
  with t1 t2 n1 n2 show ?thesis by simp
qed

end
